theory Spec2Isabelle
  imports Main "HOL-Library.Char_ord" "HOL-Library.List_Lexorder" "HOL-Library.Product_Lexorder"
    "HOL-Library.Option_ord"
begin

section \<open>translate-t2g.py: transcript to genomic coordinates\<close>

text \<open>
  The script maps a 0-based transcript position to a reference position by walking a
  CIGAR string (\<^verbatim>\<open>parse_cigar\<close>), once per query, and writes the mapped queries in the
  order of the query file. Python integers are unbounded (\<^typ>\<open>int\<close>); a CIGAR string is
  a \<^typ>\<open>string\<close> of ASCII characters; every exception the script can raise in the
  modelled part is a value of \<open>error\<close>.
\<close>

datatype error = ValueError | StopIteration | TypeError

subsection \<open>The grouping of the CIGAR string\<close>

text \<open>
  \<^verbatim>\<open>chr.isdigit()\<close>, on ASCII characters: the ten decimal digits.
\<close>

definition isdigit :: "char \<Rightarrow> bool" where
  "isdigit c = (c \<in> set ''0123456789'')"

text \<open>
  \<^verbatim>\<open>groupby(cigar, lambda chr: chr.isdigit())\<close>: the maximal runs of characters with
  the same key, in order, each with its key. No run is empty.
\<close>

fun groupby :: "string \<Rightarrow> (bool \<times> string) list" where
  "groupby [] = []"
| "groupby (c # cs) =
     (case groupby cs of
        [] \<Rightarrow> [(isdigit c, [c])]
      | (k, g) # rest \<Rightarrow>
          if k = isdigit c then (k, c # g) # rest
          else (isdigit c, [c]) # (k, g) # rest)"

text \<open>
  \<^verbatim>\<open>int(''.join(length_digits))\<close>: the base-10 value of a non-empty run of digits;
  \<^verbatim>\<open>ValueError\<close> on the empty string and on any run holding another character.
  Leading zeros are accepted. The interpreter's limit on the number of digits of a
  decimal string is not modelled.
\<close>

definition digit_value :: "char \<Rightarrow> int" where
  "digit_value c = of_char c - 48"

definition int_str :: "string \<Rightarrow> error + int" where
  "int_str s =
     (if s \<noteq> [] \<and> list_all isdigit s
      then Inr (foldl (\<lambda>acc c. 10 * acc + digit_value c) 0 s)
      else Inl ValueError)"

subsection \<open>The walk: \<^verbatim>\<open>parse_cigar\<close>\<close>

definition q_consume :: "char list" where
  "q_consume = ''MIS=X''"

definition ref_consume :: "char list" where
  "ref_consume = ''MDH=X''"

text \<open>
  The two counters of the loop: \<^verbatim>\<open>result\<close> counts query positions from 0,
  \<^verbatim>\<open>ref_result\<close> counts reference positions from \<^verbatim>\<open>rpos\<close>.
\<close>

record cursors =
  result :: int
  ref_result :: int

datatype outcome = Continue cursors | Return int

text \<open>
  The body of the loop below the two lines that read the token (lines 148 to 166):
  either the loop goes on with the counters it leaves, or the function returns.
\<close>

definition cigar_body :: "int \<Rightarrow> char \<Rightarrow> int \<Rightarrow> cursors \<Rightarrow> outcome" where
  "cigar_body len op qpos s =
     (if result s < qpos then
        (if result s + len \<le> qpos then
           Continue
             \<lparr>result = (if op \<in> set q_consume then result s + len else result s),
              ref_result = (if op \<in> set ref_consume then ref_result s + len else ref_result s)\<rparr>
         else if op \<in> set q_consume \<and> op \<in> set ref_consume then
           Return (ref_result s + (qpos - result s))
         else if op \<in> set ref_consume then
           Continue (s\<lparr>ref_result := ref_result s + len\<rparr>)
         else Continue s)
      else Continue s)"

text \<open>
  The \<^verbatim>\<open>for\<close> loop over the groups. Each round takes one group as the length and the
  first character of the group after it as the operator; the rest of that group is
  dropped when the loop asks for its next group. \<^verbatim>\<open>int\<close> raises on a group that is not
  a number, \<^verbatim>\<open>next\<close> raises when no group follows the length.
\<close>

fun cigar_loop :: "(bool \<times> string) list \<Rightarrow> int \<Rightarrow> cursors \<Rightarrow> error + int" where
  "cigar_loop [] qpos s = Inr (ref_result s)"
| "cigar_loop ((k, length_digits) # gs) qpos s =
     (case int_str length_digits of
        Inl e \<Rightarrow> Inl e
      | Inr len \<Rightarrow>
          (case gs of
             [] \<Rightarrow> Inl StopIteration
           | (k', ops) # gs' \<Rightarrow>
               (case ops of
                  [] \<Rightarrow> Inl StopIteration
                | op # _ \<Rightarrow>
                    (case cigar_body len op qpos s of
                       Return v \<Rightarrow> Inr v
                     | Continue s' \<Rightarrow> cigar_loop gs' qpos s'))))"

definition parse_cigar :: "string \<Rightarrow> int \<Rightarrow> int \<Rightarrow> error + int" where
  "parse_cigar cigar qpos rpos =
     cigar_loop (groupby cigar) qpos \<lparr>result = 0, ref_result = rpos\<rparr>"

subsection \<open>The tokens the loop reads\<close>

text \<open>
  Lines 144 to 146 alone, continued to the end of the string: the (length, operator)
  pairs that the loop reads when no round returns early, or the first exception of
  \<^verbatim>\<open>int\<close> or \<^verbatim>\<open>next\<close>.
\<close>

fun read_tokens :: "(bool \<times> string) list \<Rightarrow> error + (int \<times> char) list" where
  "read_tokens [] = Inr []"
| "read_tokens ((k, length_digits) # gs) =
     (case int_str length_digits of
        Inl e \<Rightarrow> Inl e
      | Inr len \<Rightarrow>
          (case gs of
             [] \<Rightarrow> Inl StopIteration
           | (k', ops) # gs' \<Rightarrow>
               (case ops of
                  [] \<Rightarrow> Inl StopIteration
                | op # _ \<Rightarrow>
                    (case read_tokens gs' of
                       Inl e \<Rightarrow> Inl e
                     | Inr ts \<Rightarrow> Inr ((len, op) # ts)))))"

definition cigar_tokens :: "string \<Rightarrow> error + (int \<times> char) list" where
  "cigar_tokens cigar = read_tokens (groupby cigar)"

text \<open>
  The loop on tokens already read: the same body, round after round.
\<close>

fun walk :: "(int \<times> char) list \<Rightarrow> int \<Rightarrow> cursors \<Rightarrow> int" where
  "walk [] qpos s = ref_result s"
| "walk ((len, op) # ts) qpos s =
     (case cigar_body len op qpos s of
        Return v \<Rightarrow> v
      | Continue s' \<Rightarrow> walk ts qpos s')"

text \<open>
  The values \<^verbatim>\<open>ref_result\<close> takes during the walk: before each round, and the value
  returned.
\<close>

fun ref_results :: "(int \<times> char) list \<Rightarrow> int \<Rightarrow> cursors \<Rightarrow> int list" where
  "ref_results [] qpos s = [ref_result s]"
| "ref_results ((len, op) # ts) qpos s =
     ref_result s #
     (case cigar_body len op qpos s of
        Return v \<Rightarrow> [v]
      | Continue s' \<Rightarrow> ref_results ts qpos s')"

subsection \<open>The script: mapping the queries and restoring their order\<close>

text \<open>
  A query is a row \<^verbatim>\<open>[tr, tpos]\<close> of the query file, the reference table \<^verbatim>\<open>d\<close> maps a
  transcript to \<^verbatim>\<open>[chrname, rpos, cigar]\<close>, and a mapped query is a row
  \<^verbatim>\<open>[tr, tpos, chrname, mapped_pos]\<close> of the output.
\<close>

type_synonym query = "string \<times> int"
type_synonym mapped = "string \<times> int \<times> string \<times> int"
type_synonym ref_dict = "string \<rightharpoonup> string \<times> int \<times> string"

text \<open>
  \<^verbatim>\<open>tuple(x[:2])\<close>: the query a mapped row answers.
\<close>

definition query_of :: "mapped \<Rightarrow> query" where
  "query_of x = (case x of (tr, tpos, chrname, mapped_pos) \<Rightarrow> (tr, tpos))"

text \<open>
  The mapping loop (lines 211 to 219), on the queries already sorted; \<^verbatim>\<open>queries\<close> is
  the list it appends to. Unpacking the \<^verbatim>\<open>None\<close> that \<^verbatim>\<open>d.get\<close> gives for an unknown
  transcript raises \<^verbatim>\<open>TypeError\<close>.
\<close>

fun map_queries :: "ref_dict \<Rightarrow> query list \<Rightarrow> mapped list \<Rightarrow> error + mapped list" where
  "map_queries d [] queries = Inr queries"
| "map_queries d ((tr, tpos) # rest) queries =
     (case d tr of
        None \<Rightarrow> Inl TypeError
      | Some (chrname, rpos, cigar) \<Rightarrow>
          (case parse_cigar cigar tpos rpos of
             Inl e \<Rightarrow> Inl e
           | Inr mapped_pos \<Rightarrow>
               map_queries d rest (queries @ [(tr, tpos, chrname, mapped_pos)])))"

text \<open>
  \<^verbatim>\<open>{tuple(e): i for i, e in enumerate(tr_list)}\<close>: the rows are entered in order, each
  under its index, so a later row with the same pair overwrites the index of an earlier
  one.
\<close>

fun keys_from :: "nat \<Rightarrow> 'a list \<Rightarrow> ('a \<rightharpoonup> nat) \<Rightarrow> ('a \<rightharpoonup> nat)" where
  "keys_from i [] keys = keys"
| "keys_from i (e # es) keys = keys_from (Suc i) es (keys(e \<mapsto> i))"

definition keys_of :: "query list \<Rightarrow> (query \<rightharpoonup> nat)" where
  "keys_of tr_list = keys_from 0 tr_list Map.empty"

text \<open>
  \<^verbatim>\<open>sorted(queries, key=lambda x: keys.get(tuple(x[:2])))\<close>: a stable sort on the index
  stored for the pair. Comparing a missing key (\<^verbatim>\<open>None\<close>) raises \<^verbatim>\<open>TypeError\<close>.
\<close>

definition sorted_queries :: "query list \<Rightarrow> mapped list \<Rightarrow> error + mapped list" where
  "sorted_queries tr_list queries =
     (let keys = keys_of tr_list;
          key = (\<lambda>(tr, tpos, chrname, mapped_pos). keys (tr, tpos))
      in if length queries < 2 then Inr queries
         else if list_ex (\<lambda>x. Option.is_none (key x)) queries then Inl TypeError
         else Inr (sort_key key queries))"

text \<open>
  Lines 211 to 231: the queries are mapped in the order of
  \<^verbatim>\<open>sorted(tr_list, key = lambda i: (i[0], i[1]))\<close> and then put back.
  Strings compare by code point, pairs lexicographically.
\<close>

definition translate :: "ref_dict \<Rightarrow> query list \<Rightarrow> error + mapped list" where
  "translate d tr_list =
     (case map_queries d (sort_key (\<lambda>(tr, tpos). (tr, tpos)) tr_list) [] of
        Inl e \<Rightarrow> Inl e
      | Inr queries \<Rightarrow> sorted_queries tr_list queries)"

section \<open>Properties of the walk\<close>

subsection \<open>Reading the tokens first\<close>

lemma cigar_loop_walk:
  "read_tokens gs = Inr ts \<Longrightarrow> cigar_loop gs qpos s = Inr (walk ts qpos s)"
proof (induction gs qpos s arbitrary: ts rule: cigar_loop.induct)
  case (1 qpos s)
  then show ?case by simp
next
  case (2 k length_digits gs qpos s)
  then show ?case
    by (auto split: sum.splits list.splits outcome.splits)
qed

lemma parse_cigar_walk:
  "cigar_tokens cigar = Inr ts \<Longrightarrow>
   parse_cigar cigar qpos rpos = Inr (walk ts qpos \<lparr>result = 0, ref_result = rpos\<rparr>)"
  by (simp add: parse_cigar_def cigar_tokens_def cigar_loop_walk)

lemma digit_value_nonneg: "isdigit c \<Longrightarrow> 0 \<le> digit_value c"
  by (auto simp: isdigit_def digit_value_def)

lemma foldl_digits_nonneg:
  "list_all isdigit s \<Longrightarrow> 0 \<le> acc \<Longrightarrow>
   0 \<le> foldl (\<lambda>acc c. 10 * acc + digit_value c) acc s"
  by (induction s arbitrary: acc) (auto simp: digit_value_nonneg)

lemma int_str_nonneg: "int_str s = Inr len \<Longrightarrow> 0 \<le> len"
  by (auto simp: int_str_def foldl_digits_nonneg split: if_splits)

lemma read_tokens_nonneg: "read_tokens gs = Inr ts \<Longrightarrow> list_all (\<lambda>t. 0 \<le> fst t) ts"
proof (induction gs arbitrary: ts rule: read_tokens.induct)
  case 1
  then show ?case by simp
next
  case (2 k length_digits gs)
  then show ?case
    by (auto simp: int_str_nonneg split: sum.splits list.splits)
qed

subsection \<open>One round\<close>

lemma cigar_body_frozen: "qpos \<le> result s \<Longrightarrow> cigar_body len op qpos s = Continue s"
  by (simp add: cigar_body_def)

lemma cigar_body_zero: "cigar_body 0 op qpos s = Continue s"
  by (simp add: cigar_body_def)

lemma cigar_body_neither:
  "op \<notin> set q_consume \<Longrightarrow> op \<notin> set ref_consume \<Longrightarrow> cigar_body len op qpos s = Continue s"
  by (simp add: cigar_body_def)

lemma cigar_body_Continue_mono:
  "0 \<le> len \<Longrightarrow> cigar_body len op qpos s = Continue s' \<Longrightarrow> ref_result s \<le> ref_result s'"
  by (auto simp: cigar_body_def split: if_splits)

lemma cigar_body_Return_mono:
  "cigar_body len op qpos s = Return v \<Longrightarrow> ref_result s \<le> v"
  by (auto simp: cigar_body_def split: if_splits)

subsection \<open>Fixed inputs\<close>

text \<open>
  C1. Boundary freeze on a deletion: on the tokens 3M 2D 3M with query position 3 and
  reference start 100 the walk returns 103. The 3M token brings the query counter to
  the target, so the 2D token that follows is not processed.
\<close>

theorem parse_cigar_boundary_freeze:
  "parse_cigar ''3M2D3M'' 3 100 = Inr 103 \<and>
   cigar_body 3 (CHR ''M'') 3 \<lparr>result = 0, ref_result = 100\<rparr> =
     Continue \<lparr>result = 3, ref_result = 103\<rparr> \<and>
   cigar_body 2 (CHR ''D'') 3 \<lparr>result = 3, ref_result = 103\<rparr> =
     Continue \<lparr>result = 3, ref_result = 103\<rparr>"
  by code_simp

text \<open>
  C3. Insertion overshoot: on the tokens 3M 2I 3M with query position 4 and reference
  start 100 the walk returns 104. The 2I token would pass the target, moves neither
  counter and does not end the walk; the 3M token after it is then cut at the target.
\<close>

theorem parse_cigar_insertion_overshoot:
  "parse_cigar ''3M2I3M'' 4 100 = Inr 104 \<and>
   cigar_body 2 (CHR ''I'') 4 \<lparr>result = 3, ref_result = 103\<rparr> =
     Continue \<lparr>result = 3, ref_result = 103\<rparr> \<and>
   cigar_body 3 (CHR ''M'') 4 \<lparr>result = 3, ref_result = 103\<rparr> = Return 104"
  by code_simp

text \<open>
  C2 (monotonicity in the query position) does not hold of the code. On the tokens
  3M 2I 3M with reference start 100, query position 4 is mapped to 104 and the later
  query position 5 to the earlier reference position 103: the branch for a token that
  would pass the target has a case for operators that consume both sequences and one
  for operators that consume the reference only, and none for I and S, so the query
  counter stays behind the target and the next M token is consumed in part.
\<close>

theorem parse_cigar_not_monotone:
  "parse_cigar ''3M2I3M'' 4 100 = Inr 104 \<and> parse_cigar ''3M2I3M'' 5 100 = Inr 103"
  by code_simp

text \<open>
  C8 as stated (an empty CIGAR string is a fatal parse error) fails: the loop over the
  groups of the empty string has no round, nothing is parsed, and the reference start
  comes back as the mapped position.
\<close>

theorem parse_cigar_empty_counterexample:
  "parse_cigar [] 5 100 = Inr 100"
  by code_simp

text \<open>
  C8, amended. The empty CIGAR string raises no error: it has no tokens, and
  \<^verbatim>\<open>parse_cigar\<close> returns the reference start unchanged for every query position.
\<close>

theorem parse_cigar_empty:
  "cigar_tokens [] = Inr [] \<and> parse_cigar [] qpos rpos = Inr rpos"
  by (simp add: cigar_tokens_def parse_cigar_def)

subsection \<open>Every CIGAR string\<close>

lemma cigar_loop_frozen:
  "qpos \<le> result s \<Longrightarrow>
   cigar_loop gs qpos s =
     (case read_tokens gs of Inl e \<Rightarrow> Inl e | Inr ts \<Rightarrow> Inr (ref_result s))"
proof (induction gs qpos s rule: cigar_loop.induct)
  case (1 qpos s)
  then show ?case by simp
next
  case (2 k length_digits gs qpos s)
  then show ?case
    by (auto simp: cigar_body_frozen split: sum.splits list.splits)
qed

text \<open>
  C5. Query position 0: whatever the tokens and the reference start, the walk returns
  exactly the reference start, since the query counter is at the target from the first
  round on and no token is processed. The tokens are still read, so a string that does
  not tokenize raises the tokenizer's exception.
\<close>

theorem parse_cigar_zero:
  "parse_cigar cigar 0 rpos =
     (case cigar_tokens cigar of Inl e \<Rightarrow> Inl e | Inr ts \<Rightarrow> Inr rpos)"
  by (simp add: parse_cigar_def cigar_tokens_def cigar_loop_frozen split: sum.splits)

text \<open>
  C6. A single M token of length \<open>L\<close>: every query position from 0 to \<open>L\<close> is mapped
  to the reference start plus the query position.
\<close>

theorem parse_cigar_single_match:
  assumes "cigar_tokens cigar = Inr [(L, CHR ''M'')]" and "0 \<le> qpos" and "qpos \<le> L"
  shows "parse_cigar cigar qpos r0 = Inr (r0 + qpos)"
  using assms
  by (simp add: parse_cigar_walk cigar_body_def q_consume_def ref_consume_def)

theorem parse_cigar_single_match_witness:
  "cigar_tokens ''12M'' = Inr [(12, CHR ''M'')] \<and> (0::int) \<le> 7 \<and> (7::int) \<le> 12 \<and>
   parse_cigar ''12M'' 7 100 = Inr 107"
proof -
  have h: "cigar_tokens ''12M'' = Inr [(12, CHR ''M'')]" by code_simp
  show ?thesis
    using h parse_cigar_single_match [OF h, of 7 100] by simp
qed

lemma ref_results_lower:
  "list_all (\<lambda>t. 0 \<le> fst t) ts \<Longrightarrow> r \<in> set (ref_results ts qpos s) \<Longrightarrow> ref_result s \<le> r"
proof (induction ts arbitrary: s)
  case Nil
  then show ?case by simp
next
  case (Cons t ts)
  obtain len op where t: "t = (len, op)" by (cases t)
  show ?case
  proof (cases "cigar_body len op qpos s")
    case (Continue s')
    with Cons t have "ref_result s \<le> ref_result s'"
      by (auto dest: cigar_body_Continue_mono)
    moreover from Cons t Continue have "r = ref_result s \<or> ref_result s' \<le> r"
      by auto
    ultimately show ?thesis by auto
  next
    case (Return v)
    with Cons t show ?thesis
      by (auto dest: cigar_body_Return_mono)
  qed
qed

lemma walk_in_ref_results: "walk ts qpos s \<in> set (ref_results ts qpos s)"
  by (induction ts qpos s rule: walk.induct) (auto split: outcome.splits)

text \<open>
  C4. Lower bound: on every CIGAR string that tokenizes (its lengths are runs of
  digits, so none is negative), for every query position and reference start, the walk
  returns an integer, that integer is at least the reference start, and so is the
  reference counter at every step of the walk.
\<close>

theorem parse_cigar_lower_bound:
  assumes "cigar_tokens cigar = Inr ts"
  shows "(\<exists>v. parse_cigar cigar qpos rpos = Inr v \<and> rpos \<le> v) \<and>
         list_all (\<lambda>r. rpos \<le> r) (ref_results ts qpos \<lparr>result = 0, ref_result = rpos\<rparr>)"
proof -
  let ?s = "\<lparr>result = 0, ref_result = rpos\<rparr>"
  from assms have nn: "list_all (\<lambda>t. 0 \<le> fst t) ts"
    by (simp add: cigar_tokens_def read_tokens_nonneg)
  have low: "rpos \<le> r" if "r \<in> set (ref_results ts qpos ?s)" for r
    using ref_results_lower [OF nn that] by simp
  have "parse_cigar cigar qpos rpos = Inr (walk ts qpos ?s)"
    using assms by (rule parse_cigar_walk)
  moreover have "rpos \<le> walk ts qpos ?s"
    using low walk_in_ref_results by blast
  ultimately show ?thesis
    using low by (simp add: list_all_iff)
qed

theorem parse_cigar_lower_bound_witness:
  "cigar_tokens ''3M2D3M'' = Inr [(3, CHR ''M''), (2, CHR ''D''), (3, CHR ''M'')] \<and>
   parse_cigar ''3M2D3M'' 4 100 = Inr 106 \<and>
   ref_results [(3, CHR ''M''), (2, CHR ''D''), (3, CHR ''M'')] 4
     \<lparr>result = 0, ref_result = 100\<rparr> = [100, 103, 105, 106] \<and>
   (\<exists>v. parse_cigar ''3M2D3M'' 4 100 = Inr v \<and> 100 \<le> v)"
proof -
  have h: "cigar_tokens ''3M2D3M'' = Inr [(3, CHR ''M''), (2, CHR ''D''), (3, CHR ''M'')]"
    by code_simp
  have v: "parse_cigar ''3M2D3M'' 4 100 = Inr 106"
    by code_simp
  have t: "ref_results [(3, CHR ''M''), (2, CHR ''D''), (3, CHR ''M'')] 4
             \<lparr>result = 0, ref_result = 100\<rparr> = [100, 103, 105, 106]"
    by code_simp
  show ?thesis
    using h v t parse_cigar_lower_bound [OF h, of 4 100] by simp
qed

lemma walk_lower:
  "list_all (\<lambda>t. 0 \<le> fst t) ts \<Longrightarrow> ref_result s \<le> walk ts qpos s"
  using ref_results_lower walk_in_ref_results by blast

lemma walk_frozen: "qpos \<le> result s \<Longrightarrow> walk ts qpos s = ref_result s"
  by (induction ts qpos s rule: walk.induct) (auto simp: cigar_body_frozen)

text \<open>
  Without a token that consumes the query only (I or S), the walk is monotone in the
  query position: the case the branch for a token passing the target leaves out is the
  only way a later query position reaches an earlier reference position.
\<close>

lemma walk_mono:
  assumes "list_all (\<lambda>t. 0 \<le> fst t) ts" and "list_all (\<lambda>t. snd t \<notin> set ''IS'') ts"
    and "q1 \<le> q2"
  shows "walk ts q1 s \<le> walk ts q2 s"
  using assms
proof (induction ts arbitrary: s)
  case Nil
  then show ?case by simp
next
  case (Cons t ts)
  obtain len op where t: "t = (len, op)" by (cases t)
  from Cons.prems t have len: "0 \<le> len" and nn: "list_all (\<lambda>t. 0 \<le> fst t) ts"
    and op: "op \<noteq> CHR ''I''" "op \<noteq> CHR ''S''" by auto
  have IH: "walk ts q1 s' \<le> walk ts q2 s'" for s'
    using Cons by simp
  show ?case
  proof (cases "result s < q1")
    case False
    then have "walk (t # ts) q1 s = ref_result s"
      by (simp add: walk_frozen)
    also have "\<dots> \<le> walk (t # ts) q2 s"
      using Cons.prems(1) by (rule walk_lower)
    finally show ?thesis .
  next
    case True
    note lt = this
    show ?thesis
    proof (cases "result s + len \<le> q1")
      case True
      with lt \<open>q1 \<le> q2\<close> have "cigar_body len op q2 s = cigar_body len op q1 s"
        by (simp add: cigar_body_def)
      then show ?thesis
        using IH by (simp add: t split: outcome.splits)
    next
      case False
      note over = this
      show ?thesis
      proof (cases "op \<in> set ref_consume")
        case False
        with op have "op \<notin> set q_consume"
          by (auto simp: q_consume_def ref_consume_def)
        with False have "cigar_body len op q1 s = Continue s" "cigar_body len op q2 s = Continue s"
          by (simp_all add: cigar_body_neither)
        then show ?thesis using IH by (simp add: t)
      next
        case True
        note rc = this
        show ?thesis
        proof (cases "op \<in> set q_consume")
          case False
          with rc lt over \<open>q1 \<le> q2\<close>
          have "cigar_body len op q1 s = Continue (s\<lparr>ref_result := ref_result s + len\<rparr>)"
            "cigar_body len op q2 s = Continue (s\<lparr>ref_result := ref_result s + len\<rparr>)"
            by (auto simp: cigar_body_def)
          then show ?thesis using IH by (simp add: t)
        next
          case True
          with rc lt over have r1: "walk (t # ts) q1 s = ref_result s + (q1 - result s)"
            by (simp add: t cigar_body_def)
          show ?thesis
          proof (cases "result s + len \<le> q2")
            case False
            with True rc lt \<open>q1 \<le> q2\<close> have "walk (t # ts) q2 s = ref_result s + (q2 - result s)"
              by (simp add: t cigar_body_def)
            with r1 \<open>q1 \<le> q2\<close> show ?thesis by simp
          next
            case fits: True
            let ?s' = "\<lparr>result = result s + len, ref_result = ref_result s + len\<rparr>"
            from fits True rc lt \<open>q1 \<le> q2\<close> have "walk (t # ts) q2 s = walk ts q2 ?s'"
              by (simp add: t cigar_body_def)
            moreover have "ref_result ?s' \<le> walk ts q2 ?s'"
              using nn by (rule walk_lower)
            ultimately show ?thesis using r1 over by simp
          qed
        qed
      qed
    qed
  qed
qed

lemma parse_cigar_mono_no_query_only:
  assumes "cigar_tokens cigar = Inr ts" and "list_all (\<lambda>t. snd t \<notin> set ''IS'') ts"
    and "q1 \<le> q2"
  shows "\<exists>v1 v2. parse_cigar cigar q1 rpos = Inr v1 \<and> parse_cigar cigar q2 rpos = Inr v2 \<and> v1 \<le> v2"
proof -
  from assms(1) have "list_all (\<lambda>t. 0 \<le> fst t) ts"
    by (simp add: cigar_tokens_def read_tokens_nonneg)
  then show ?thesis
    using assms by (simp add: parse_cigar_walk walk_mono)
qed

lemma walk_zero_token: "walk (ts1 @ (0, op) # ts2) qpos s = walk (ts1 @ ts2) qpos s"
  by (induction ts1 qpos s rule: walk.induct) (auto simp: cigar_body_zero split: outcome.splits)

text \<open>
  C7. A token of length 0, with any operator, put at any place between the tokens of a
  CIGAR string does not change the result of the walk, for every query position and
  reference start: the token moves neither counter.
\<close>

theorem parse_cigar_zero_length_token:
  assumes "cigar_tokens c1 = Inr (ts1 @ ts2)"
    and "cigar_tokens c2 = Inr (ts1 @ (0, op) # ts2)"
  shows "parse_cigar c2 qpos rpos = parse_cigar c1 qpos rpos"
  using assms by (simp add: parse_cigar_walk walk_zero_token)

theorem parse_cigar_zero_length_token_witness:
  "cigar_tokens ''3M2D3M'' = Inr ([(3, CHR ''M'')] @ [(2, CHR ''D''), (3, CHR ''M'')]) \<and>
   cigar_tokens ''3M0I2D3M'' =
     Inr ([(3, CHR ''M'')] @ (0, CHR ''I'') # [(2, CHR ''D''), (3, CHR ''M'')]) \<and>
   parse_cigar ''3M0I2D3M'' 4 100 = parse_cigar ''3M2D3M'' 4 100 \<and>
   parse_cigar ''3M2D3M'' 4 100 = Inr 106"
proof -
  have h1: "cigar_tokens ''3M2D3M'' = Inr ([(3, CHR ''M'')] @ [(2, CHR ''D''), (3, CHR ''M'')])"
    by code_simp
  have h2: "cigar_tokens ''3M0I2D3M'' =
      Inr ([(3, CHR ''M'')] @ (0, CHR ''I'') # [(2, CHR ''D''), (3, CHR ''M'')])"
    by code_simp
  have v: "parse_cigar ''3M2D3M'' 4 100 = Inr 106"
    by code_simp
  show ?thesis
    using h1 h2 v parse_cigar_zero_length_token [OF h1 h2, of 4 100] by simp
qed

text \<open>
  C10. An operator letter outside M, I, D, N, S, H, P, =, X raises no error: the round
  leaves both counters as they are, exactly as for N and P, and the loop goes on with
  the next token.
\<close>

theorem unrecognized_operator_no_op:
  assumes "op \<notin> set ''MIDNSHP=X''" and "int_str length_digits = Inr len"
  shows "cigar_body len op qpos s = Continue s \<and>
         cigar_body len op qpos s = cigar_body len (CHR ''N'') qpos s \<and>
         cigar_body len op qpos s = cigar_body len (CHR ''P'') qpos s \<and>
         cigar_loop ((k, length_digits) # (k', op # ops) # gs) qpos s = cigar_loop gs qpos s"
  using assms by (simp add: cigar_body_neither q_consume_def ref_consume_def)

theorem unrecognized_operator_no_op_witness:
  "CHR ''B'' \<notin> set ''MIDNSHP=X'' \<and> int_str ''7'' = Inr 7 \<and>
   cigar_body 7 (CHR ''B'') 9 \<lparr>result = 3, ref_result = 103\<rparr> =
     Continue \<lparr>result = 3, ref_result = 103\<rparr> \<and>
   parse_cigar ''3M7B3M'' 5 100 = Inr 105 \<and> parse_cigar ''3M3M'' 5 100 = Inr 105"
proof -
  have h1: "CHR ''B'' \<notin> set ''MIDNSHP=X''" by simp
  have h2: "int_str ''7'' = Inr 7" by code_simp
  have "parse_cigar ''3M7B3M'' 5 100 = Inr 105" by code_simp
  moreover have "parse_cigar ''3M3M'' 5 100 = Inr 105" by code_simp
  ultimately show ?thesis
    using h1 h2
      unrecognized_operator_no_op [OF h1 h2, of 9 "\<lparr>result = 3, ref_result = 103\<rparr>"]
    by simp
qed

section \<open>Properties of the script\<close>

text \<open>
  C9 (the output lines are in the order of the query file, duplicates included) does not
  hold of the code. On the query file A 1, B 1, A 1 the dictionary of line 227 keeps one
  index for the pair (A, 1), the index 2 of its last row; both mapped rows of A sort
  under that index, after the row of B, and the output is B, A, A: three lines, but the
  first line of the output is not the first query.
\<close>

theorem translate_duplicates_misordered:
  "translate [''A'' \<mapsto> (''chr1'', 100, ''5M''), ''B'' \<mapsto> (''chr2'', 200, ''5M'')]
     [(''A'', 1), (''B'', 1), (''A'', 1)] =
   Inr [(''B'', 1, ''chr2'', 201), (''A'', 1, ''chr1'', 101), (''A'', 1, ''chr1'', 101)]"
  by code_simp

lemma map_queries_query_of:
  "map_queries d qs queries = Inr out \<Longrightarrow> map query_of out = map query_of queries @ qs"
proof (induction d qs queries rule: map_queries.induct)
  case (1 d queries)
  then show ?case by simp
next
  case (2 d tr tpos rest queries)
  then show ?case
    by (auto simp: query_of_def split: option.splits sum.splits)
qed

lemma keys_from_notin: "x \<notin> set xs \<Longrightarrow> keys_from n xs m x = m x"
  by (induction xs arbitrary: n m) auto

lemma keys_from_nth:
  "distinct xs \<Longrightarrow> i < length xs \<Longrightarrow> keys_from n xs m (xs ! i) = Some (n + i)"
proof (induction xs arbitrary: n m i)
  case Nil
  then show ?case by simp
next
  case (Cons a xs)
  show ?case
  proof (cases i)
    case 0
    with Cons.prems show ?thesis by (simp add: keys_from_notin)
  next
    case (Suc j)
    with Cons.prems have "distinct xs" "j < length xs" by auto
    then show ?thesis by (simp add: Suc Cons.IH)
  qed
qed

lemma keys_of_nth: "distinct xs \<Longrightarrow> i < length xs \<Longrightarrow> keys_of xs (xs ! i) = Some i"
  using keys_from_nth [of xs i 0 Map.empty] by (simp add: keys_of_def)

lemma map_keys_of: "distinct xs \<Longrightarrow> map (keys_of xs) xs = map Some [0..<length xs]"
  by (rule nth_equalityI) (simp_all add: keys_of_nth)

lemma inj_on_keys_of: "distinct xs \<Longrightarrow> inj_on (keys_of xs) (set xs)"
proof -
  assume "distinct xs"
  then have "distinct (map (keys_of xs) xs)"
    by (simp add: map_keys_of distinct_map)
  then show ?thesis
    by (simp add: distinct_map)
qed

text \<open>
  When no pair occurs twice in the query file, every pair has its own index and the
  second sort puts the mapped rows back in the order of the file. The number of rows
  is kept in every case.
\<close>

lemma sorted_queries_restores:
  assumes "distinct tr_list" and "map query_of queries = sort_key (\<lambda>(tr, tpos). (tr, tpos)) tr_list"
    and "sorted_queries tr_list queries = Inr out"
  shows "map query_of out = tr_list"
proof (cases "length queries < 2")
  case True
  with assms(3) have out: "out = queries"
    by (simp add: sorted_queries_def)
  from assms(2) have "length tr_list = length queries"
    by (metis length_map length_sort)
  with True have "length tr_list < 2" by simp
  then have "sort_key (\<lambda>(tr, tpos). (tr, tpos)) tr_list = tr_list"
    by (cases tr_list) (auto simp: less_Suc_eq)
  with assms(2) out show ?thesis by simp
next
  case False
  let ?k = "keys_of tr_list"
  let ?key = "\<lambda>x. ?k (query_of x)"
  have key: "(\<lambda>(tr, tpos, chrname, mapped_pos). ?k (tr, tpos)) = ?key"
    by (auto simp: query_of_def)
  from assms(3) False have out: "out = sort_key ?key queries"
    by (simp add: sorted_queries_def key split: if_splits)
  from assms(2) have set_q: "set (map query_of queries) = set tr_list"
    by simp
  from assms(1,2) have dist_q: "distinct (map query_of queries)"
    by simp
  have inj: "inj_on ?k (set tr_list)"
    using assms(1) by (rule inj_on_keys_of)
  have set_out: "set (map query_of out) = set tr_list"
    using set_q by (simp add: out)
  from dist_q have "distinct (map query_of out)"
    by (simp add: out distinct_map)
  with inj set_out have d1: "distinct (map ?k (map query_of out))"
    by (metis distinct_map)
  have s1: "sorted (map ?k (map query_of out))"
    using sorted_sort_key [of ?key queries] by (simp add: out comp_def)
  have s2: "sorted (map ?k tr_list)" and d2: "distinct (map ?k tr_list)"
    using assms(1) by (simp_all add: map_keys_of sorted_map distinct_map)
  show ?thesis
    using inj set_out s1 d1 s2 d2
    by (intro map_sorted_distinct_set_unique [of ?k]) simp_all
qed

lemma translate_restores_distinct:
  assumes "distinct tr_list" and "translate d tr_list = Inr out"
  shows "map query_of out = tr_list"
proof -
  from assms(2) obtain queries
    where m: "map_queries d (sort_key (\<lambda>(tr, tpos). (tr, tpos)) tr_list) [] = Inr queries"
      and s: "sorted_queries tr_list queries = Inr out"
    by (auto simp: translate_def split: sum.splits)
  from map_queries_query_of [OF m]
  have "map query_of queries = sort_key (\<lambda>(tr, tpos). (tr, tpos)) tr_list"
    by simp
  with assms(1) show ?thesis
    using s by (rule sorted_queries_restores)
qed

lemma translate_length:
  assumes "translate d tr_list = Inr out"
  shows "length out = length tr_list"
proof -
  from assms obtain queries
    where m: "map_queries d (sort_key (\<lambda>(tr, tpos). (tr, tpos)) tr_list) [] = Inr queries"
      and s: "sorted_queries tr_list queries = Inr out"
    by (auto simp: translate_def split: sum.splits)
  from map_queries_query_of [OF m] have "length queries = length tr_list"
    by (metis append_Nil length_map length_sort list.simps(8))
  moreover from s have "length out = length queries"
    by (auto simp: sorted_queries_def Let_def split: if_splits)
  ultimately show ?thesis by simp
qed

end
